theory Spec2Isabelle
  imports Complex_Main "HOL-Library.Word"
begin

section \<open>Packed-memory array: data model\<close>

text \<open>
  The class \<open>pma\<close> of \<open>pma.h\<close> and \<open>pma.cc\<close>.  A \<open>uint32_t\<close> is a 32-bit word.  A C++
  \<open>int\<close> that is mixed with \<open>uint32_t\<close> values (loop indices, \<open>next_index\<close>, \<open>gap\<close>) is kept
  as its 32-bit two's-complement pattern, read with \<open>sint\<close> where the sign matters; the
  conversions between \<open>int\<close> and \<open>uint32_t\<close> are modular, so they leave the pattern as it
  is.  Keys and the tree height are C++ \<open>int\<close>s on which the code does no arithmetic that
  could overflow; they are HOL integers.  The field \<open>_size\<close> is \<open>size_pma\<close>.

  Everything the C++ standard leaves undefined is a value of \<open>error\<close>: an index outside a
  vector, a division by zero, overflow of a signed \<open>int\<close>, a shift by a bad amount, a
  non-void function that ends without \<open>return\<close>, the conversion of a non-finite \<open>double\<close>
  to \<open>int\<close>, and a loop that never ends.
\<close>

type_synonym u32 = "32 word"
type_synonym i32 = "32 word"

datatype error =
    OutOfBounds
  | DivByZero
  | SignedOverflow
  | BadShift
  | NoReturn
  | FloatToInt
  | Diverges

record pma =
  implicit_tree_height :: int
  segment_size :: u32
  size_pma :: u32
  free_index_bitmap :: "bool list"
  storage :: "int list"

definition INITIAL_CAPACITY :: nat where
  "INITIAL_CAPACITY = 4"

text \<open>
  \<open>(int) log2(n)\<close> of \<open>cmath\<close> for an integer \<open>n > 0\<close>: the number of times \<open>n\<close> can be
  halved before it drops below 2.
\<close>

fun floor_log2 :: "nat \<Rightarrow> nat" where
  "floor_log2 n = (if n < 2 then 0 else Suc (floor_log2 (n div 2)))"

declare floor_log2.simps [simp del]

text \<open>\<open>std::vector::resize\<close>: truncate, or extend with value-initialised elements.\<close>

definition vec_resize :: "nat \<Rightarrow> 'a \<Rightarrow> 'a list \<Rightarrow> 'a list" where
  "vec_resize n d xs = take n xs @ replicate (n - length xs) d"

text \<open>The constructor \<open>pma::pma()\<close>.\<close>

definition pma_new :: pma where
  "pma_new =
     (let h = int (floor_log2 INITIAL_CAPACITY);
          s = int INITIAL_CAPACITY div h
      in \<lparr> implicit_tree_height = h,
           segment_size = word_of_int s,
           size_pma = 0,
           free_index_bitmap = vec_resize INITIAL_CAPACITY False [],
           storage = vec_resize INITIAL_CAPACITY 0 [] \<rparr>)"

subsection \<open>Element access\<close>

text \<open>
  \<open>operator[]\<close> of a vector takes a \<open>size_t\<close>: a \<open>uint32_t\<close> index is zero-extended
  (\<open>unat\<close>), an \<open>int\<close> index is sign-extended, so a negative \<open>int\<close> is out of every vector.
\<close>

definition int_index :: "i32 \<Rightarrow> error + nat" where
  "int_index i = (if sint i < 0 then Inl OutOfBounds else Inr (unat i))"

definition bit_at :: "pma \<Rightarrow> nat \<Rightarrow> error + bool" where
  "bit_at p n =
     (if n < length (free_index_bitmap p) then Inr (free_index_bitmap p ! n)
      else Inl OutOfBounds)"

definition storage_at :: "pma \<Rightarrow> nat \<Rightarrow> error + int" where
  "storage_at p n =
     (if n < length (storage p) then Inr (storage p ! n) else Inl OutOfBounds)"

definition storage_set :: "pma \<Rightarrow> nat \<Rightarrow> int \<Rightarrow> error + pma" where
  "storage_set p n v =
     (if n < length (storage p) then Inr (p\<lparr>storage := (storage p)[n := v]\<rparr>)
      else Inl OutOfBounds)"

definition bit_flip :: "pma \<Rightarrow> nat \<Rightarrow> error + pma" where
  "bit_flip p n =
     (if n < length (free_index_bitmap p)
      then Inr (p\<lparr>free_index_bitmap :=
                    (free_index_bitmap p)[n := \<not> free_index_bitmap p ! n]\<rparr>)
      else Inl OutOfBounds)"

subsection \<open>Observers\<close>

definition capacity :: "pma \<Rightarrow> u32" where
  "capacity p = of_nat (length (storage p))"

definition tree_height :: "pma \<Rightarrow> int" where
  "tree_height p = implicit_tree_height p"

text \<open>\<open>index_is_free\<close>: the bit is \<open>false\<close>.\<close>

definition index_is_free :: "pma \<Rightarrow> u32 \<Rightarrow> error + bool" where
  "index_is_free p indexno =
     (case bit_at p (unat indexno) of Inl e \<Rightarrow> Inl e | Inr b \<Rightarrow> Inr (b = False))"

subsection \<open>Arithmetic of \<open>int\<close> and \<open>double\<close>\<close>

definition INT_MAX :: i32 where
  "INT_MAX = 0x7FFFFFFF"

definition INT_MIN :: i32 where
  "INT_MIN = 0x80000000"

definition int_incr :: "i32 \<Rightarrow> error + i32" where
  "int_incr i = (if i = INT_MAX then Inl SignedOverflow else Inr (i + 1))"

definition int_decr :: "i32 \<Rightarrow> error + i32" where
  "int_decr i = (if i = INT_MIN then Inl SignedOverflow else Inr (i - 1))"

definition int_minus :: "i32 \<Rightarrow> i32 \<Rightarrow> error + i32" where
  "int_minus a b =
     (if sint a - sint b < - (2 ^ 31) \<or> 2 ^ 31 \<le> sint a - sint b
      then Inl SignedOverflow else Inr (a - b))"

text \<open>
  The density thresholds are \<open>double\<close>s, and the code only ever compares one with the
  quotient of two \<open>uint32_t\<close>, an integer.  The threshold at height \<open>h\<close> of a tree of
  height \<open>H\<close> is \<open>0.5 + 0.5 * (H - h) / H\<close>, and the code asks for it with \<open>h = 0\<close> or
  with \<open>1 \<le> h < H\<close>.  For \<open>h = 0\<close> and \<open>H \<noteq> 0\<close> it is exactly 1.0.  For \<open>1 \<le> h < H\<close> it
  lies between 0.5 and 1, at least \<open>2^-32\<close> away from 1, which rounding cannot bridge.
  So the exact rational decides every comparison as the \<open>double\<close> does.  For \<open>H = 0\<close> the
  division gives an infinity or a NaN, kept as such.
\<close>

datatype dbl = Fin rat | PInf | MInf | NaN

fun dbl_less :: "dbl \<Rightarrow> dbl \<Rightarrow> bool" where
  "dbl_less NaN b = False"
| "dbl_less a NaN = False"
| "dbl_less (Fin x) (Fin y) = (x < y)"
| "dbl_less (Fin x) PInf = True"
| "dbl_less (Fin x) MInf = False"
| "dbl_less PInf b = False"
| "dbl_less MInf MInf = False"
| "dbl_less MInf b = True"

fun dbl_le :: "dbl \<Rightarrow> dbl \<Rightarrow> bool" where
  "dbl_le NaN b = False"
| "dbl_le a NaN = False"
| "dbl_le (Fin x) (Fin y) = (x \<le> y)"
| "dbl_le (Fin x) PInf = True"
| "dbl_le (Fin x) MInf = False"
| "dbl_le PInf PInf = True"
| "dbl_le PInf b = False"
| "dbl_le MInf b = True"

definition dbl_of_u32 :: "u32 \<Rightarrow> dbl" where
  "dbl_of_u32 w = Fin (of_nat (unat w))"

definition ROOT_UPPER_DENSITY :: rat where
  "ROOT_UPPER_DENSITY = 5 / 10"

definition LEAF_UPPER_DENSITY :: rat where
  "LEAF_UPPER_DENSITY = 1"

definition upper_density_threshold :: "pma \<Rightarrow> int \<Rightarrow> dbl" where
  "upper_density_threshold p height =
     (let h = implicit_tree_height p;
          num = (LEAF_UPPER_DENSITY - ROOT_UPPER_DENSITY) * of_int (h - height)
      in if h \<noteq> 0 then Fin (ROOT_UPPER_DENSITY + num / of_int h)
         else if 0 < num then PInf
         else if num < 0 then MInf
         else NaN)"

text \<open>\<open>_segment_size << height\<close>.\<close>

definition window_capacity :: "pma \<Rightarrow> int \<Rightarrow> error + u32" where
  "window_capacity p height =
     (if 0 \<le> height \<and> height < 32 then Inr (push_bit (nat height) (segment_size p))
      else Inl BadShift)"

text \<open>\<open>_storage.size() / _segment_size\<close>, returned as \<open>int\<close>.\<close>

definition number_of_segments :: "pma \<Rightarrow> error + i32" where
  "number_of_segments p =
     (if segment_size p = 0 then Inl DivByZero
      else Inr (of_nat (length (storage p) div unat (segment_size p))))"

lemma unat_incr_less: "i < bound \<Longrightarrow> unat (i + 1) = Suc (unat i)" for i :: u32
  by unat_arith

lemma sint_decr_nonneg: "0 \<le> sint w \<Longrightarrow> sint (w - 1) = sint w - 1" for w :: i32
proof -
  assume "0 \<le> sint w"
  with sint_lt [of w] have "- (2 ^ 31) \<le> sint w - 1 \<and> sint w - 1 < 2 ^ 31"
    by simp
  then have "signed_take_bit 31 (sint w - 1) = sint w - 1"
    by (simp add: signed_take_bit_int_eq_self)
  then show ?thesis
    by (simp add: sint_word_diff)
qed

subsection \<open>The window scanner\<close>

text \<open>
  \<open>for (int i = window; i < window + length; ++i)\<close>: the comparison converts \<open>i\<close> to
  unsigned.
\<close>

function ws_loop :: "pma \<Rightarrow> u32 \<Rightarrow> i32 \<Rightarrow> u32 \<Rightarrow> error + u32" where
  "ws_loop p bound i sz =
     (if i < bound then
        (case index_is_free p i of
           Inl e \<Rightarrow> Inl e
         | Inr f \<Rightarrow>
             (case int_incr i of
                Inl e \<Rightarrow> Inl e
              | Inr i' \<Rightarrow> ws_loop p bound i' (if f then sz else sz + 1)))
      else Inr sz)"
  by pat_completeness auto
termination
proof (relation "measure (\<lambda>(p, bound, i, sz). unat bound - unat i)")
  fix p :: pma and bound i sz :: u32 and f :: bool and i' :: i32
  assume lt: "i < bound" and inc: "int_incr i = Inr i'"
  from inc have i': "i' = i + 1"
    by (simp add: int_incr_def split: if_splits)
  from lt have "unat i < unat bound"
    by (simp add: word_less_nat_alt)
  moreover from lt have "unat (i + 1) = Suc (unat i)"
    by (rule unat_incr_less)
  ultimately show "((p, bound, i', if f then sz else sz + 1), (p, bound, i, sz))
      \<in> measure (\<lambda>(p, bound, i, sz). unat bound - unat i)"
    by (simp add: i')
qed simp

declare ws_loop.simps [simp del]

definition window_size :: "pma \<Rightarrow> u32 \<Rightarrow> u32 \<Rightarrow> error + u32" where
  "window_size p window len = ws_loop p (window + len) window 0"

subsection \<open>The locator\<close>

text \<open>
  A \<open>uint32_t\<close> has \<open>U32_RANGE\<close> values.  The two loops of \<open>segment_to_insert\<close> change
  nothing but their counter, so a loop that has gone round \<open>U32_RANGE\<close> times without
  leaving is back at a counter it has had before and never leaves: that many rounds of
  fuel decide whether it does.
\<close>

definition U32_RANGE :: nat where
  "U32_RANGE = 2 ^ 32"

text \<open>
  The inner loop \<open>for (uint32_t i = seg; seg < _segment_size; ++i)\<close>.  \<open>Some r\<close> is
  \<open>return r\<close>; \<open>None\<close> is leaving the loop, by \<open>break\<close> or by its condition.
\<close>

fun seg_scan :: "nat \<Rightarrow> pma \<Rightarrow> int \<Rightarrow> u32 \<Rightarrow> u32 \<Rightarrow> error + u32 option" where
  "seg_scan fuel p x seg i =
     (if seg < segment_size p then
        (if fuel = 0 then Inl Diverges
         else
           (case index_is_free p i of
              Inl e \<Rightarrow> Inl e
            | Inr f \<Rightarrow>
                if f then seg_scan (fuel - 1) p x seg (i + 1)
                else
                  (case storage_at p (unat i) of
                     Inl e \<Rightarrow> Inl e
                   | Inr k \<Rightarrow>
                       if x > k then Inr None
                       else if x = k then Inr (Some seg)
                       else Inr (Some (seg - segment_size p)))))
      else Inr None)"

declare seg_scan.simps [simp del]

text \<open>
  The outer loop \<open>for (uint32_t seg = 0; seg < capacity(); seg += _segment_size)\<close>; the
  function has no \<open>return\<close> after it.
\<close>

fun seg_loop :: "nat \<Rightarrow> pma \<Rightarrow> int \<Rightarrow> u32 \<Rightarrow> error + u32" where
  "seg_loop fuel p x seg =
     (if seg < capacity p then
        (if fuel = 0 then Inl Diverges
         else
           (case seg_scan U32_RANGE p x seg seg of
              Inl e \<Rightarrow> Inl e
            | Inr (Some r) \<Rightarrow> Inr r
            | Inr None \<Rightarrow> seg_loop (fuel - 1) p x (seg + segment_size p)))
      else Inl NoReturn)"

declare seg_loop.simps [simp del]

definition segment_to_insert :: "pma \<Rightarrow> int \<Rightarrow> error + u32" where
  "segment_to_insert p x = seg_loop U32_RANGE p x 0"

text \<open>
  The loop of \<open>position_to_insert\<close>,
  \<open>for (uint32_t i = segment; i < _segment_size - 1; ++i)\<close>.  The \<open>else\<close> belongs to the
  second \<open>if\<close>, so the loop goes on only past a key equal to \<open>x\<close>.
\<close>

function pos_loop :: "pma \<Rightarrow> int \<Rightarrow> u32 \<Rightarrow> u32 \<Rightarrow> error + u32" where
  "pos_loop p x i pos =
     (if i < segment_size p - 1 then
        (case index_is_free p i of
           Inl e \<Rightarrow> Inl e
         | Inr f \<Rightarrow>
             if f then pos_loop p x (i + 1) pos
             else
               (case storage_at p (unat i) of
                  Inl e \<Rightarrow> Inl e
                | Inr k \<Rightarrow>
                    if x = k then pos_loop p x (i + 1) (i + 1)
                    else Inr (if x > k then i + 1 else pos)))
      else Inr pos)"
  by pat_completeness auto
termination
  by (relation "measure (\<lambda>(p, x, i, pos). unat (segment_size p - 1) - unat i)")
    (auto simp: unat_incr_less word_less_nat_alt)

declare pos_loop.simps [simp del]

definition position_to_insert :: "pma \<Rightarrow> u32 \<Rightarrow> int \<Rightarrow> error + u32" where
  "position_to_insert p segment x = pos_loop p x segment 0"

subsection \<open>Redistribution\<close>

text \<open>
  The four statements both loops of \<open>naive_rebalance\<close> share:
  \<open>_storage[to] = _storage[from]; _free_index_bitmap[to].flip();
    _storage[from] = 0; _free_index_bitmap[from].flip();\<close>
  with \<open>int\<close> indices.
\<close>

definition move_key :: "pma \<Rightarrow> i32 \<Rightarrow> i32 \<Rightarrow> error + pma" where
  "move_key p to from =
     (case int_index from of Inl e \<Rightarrow> Inl e | Inr f \<Rightarrow>
      case int_index to of Inl e \<Rightarrow> Inl e | Inr t \<Rightarrow>
      case storage_at p f of Inl e \<Rightarrow> Inl e | Inr v \<Rightarrow>
      case storage_set p t v of Inl e \<Rightarrow> Inl e | Inr p1 \<Rightarrow>
      case bit_flip p1 t of Inl e \<Rightarrow> Inl e | Inr p2 \<Rightarrow>
      case storage_set p2 f 0 of Inl e \<Rightarrow> Inl e | Inr p3 \<Rightarrow>
      bit_flip p3 f)"

text \<open>
  The first loop, \<open>for (int i = window; i < window + length; ++i)\<close>, with
  \<open>next_index\<close> starting at 0.
\<close>

function compact :: "pma \<Rightarrow> u32 \<Rightarrow> i32 \<Rightarrow> i32 \<Rightarrow> error + pma" where
  "compact p bound i next_index =
     (if i < bound then
        (case index_is_free p i of
           Inl e \<Rightarrow> Inl e
         | Inr f \<Rightarrow>
             if f then
               (case int_incr i of
                  Inl e \<Rightarrow> Inl e
                | Inr i' \<Rightarrow> compact p bound i' next_index)
             else
               (case (if next_index = i then Inr p else move_key p next_index i) of
                  Inl e \<Rightarrow> Inl e
                | Inr p' \<Rightarrow>
                    (case int_incr next_index of
                       Inl e \<Rightarrow> Inl e
                     | Inr next_index' \<Rightarrow>
                         (case int_incr i of
                            Inl e \<Rightarrow> Inl e
                          | Inr i' \<Rightarrow> compact p' bound i' next_index'))))
      else Inr p)"
  by pat_completeness auto
termination
  by (relation "measure (\<lambda>(p, bound, i, next_index). unat bound - unat i)")
    (auto simp: int_incr_def unat_incr_less word_less_nat_alt split: if_splits)

declare compact.simps [simp del]

text \<open>
  The second loop, \<open>for (int i = window + length - 1; i >= window; i -= gap)\<close>; the
  comparison converts \<open>i\<close> to unsigned.
\<close>

function spread :: "pma \<Rightarrow> u32 \<Rightarrow> i32 \<Rightarrow> i32 \<Rightarrow> i32 \<Rightarrow> error + pma" where
  "spread p window gap i next_index =
     (if window \<le> i then
        (case move_key p i next_index of
           Inl e \<Rightarrow> Inl e
         | Inr p' \<Rightarrow>
             (case int_decr next_index of
                Inl e \<Rightarrow> Inl e
              | Inr next_index' \<Rightarrow>
                  (case int_minus i gap of
                     Inl e \<Rightarrow> Inl e
                   | Inr i' \<Rightarrow> spread p' window gap i' next_index')))
      else Inr p)"
  by pat_completeness auto
termination
proof (relation "measure (\<lambda>(p, window, gap, i, next_index). nat (sint next_index + 1))")
  fix p p' :: pma and window gap i next_index next_index' i' :: i32
  assume mv: "move_key p i next_index = Inr p'"
    and dec: "int_decr next_index = Inr next_index'"
  from mv have "0 \<le> sint next_index"
    by (auto simp: move_key_def int_index_def split: if_splits sum.splits)
  moreover from dec have "next_index' = next_index - 1"
    by (simp add: int_decr_def split: if_splits)
  ultimately show "((p', window, gap, i', next_index'), (p, window, gap, i, next_index))
      \<in> measure (\<lambda>(p, window, gap, i, next_index). nat (sint next_index + 1))"
    by (simp add: sint_decr_nonneg)
qed simp

declare spread.simps [simp del]

definition naive_rebalance :: "pma \<Rightarrow> u32 \<Rightarrow> u32 \<Rightarrow> error + pma" where
  "naive_rebalance p window len =
     (case window_size p window len of Inl e \<Rightarrow> Inl e | Inr sz \<Rightarrow>
      case compact p (window + len) window 0 of Inl e \<Rightarrow> Inl e | Inr p' \<Rightarrow>
      case int_decr sz of Inl e \<Rightarrow> Inl e | Inr next_index \<Rightarrow>
      if sz = 0 then Inl DivByZero
      else spread p' window (len div sz) (window + len - 1) next_index)"

subsection \<open>Resize\<close>

text \<open>
  The statements of \<open>resize\<close> before its last one: the new capacity, tree height and
  segment size, and the two vectors resized.  The result is the object on which the last
  statement, \<open>naive_rebalance(0, new_capacity)\<close>, is called, and \<open>new_capacity\<close>.
\<close>

definition resize_fields :: "pma \<Rightarrow> error + pma \<times> i32" where
  "resize_fields p =
     (let new_capacity = push_bit 1 (capacity p) :: i32
      in if sint new_capacity \<le> 0 then Inl FloatToInt
         else
           (let h = int (floor_log2 (nat (sint new_capacity)))
            in if h = 0 then Inl DivByZero
               else Inr
                     (p\<lparr> implicit_tree_height := h,
                         segment_size := word_of_int (sint new_capacity div h),
                         free_index_bitmap :=
                           vec_resize (nat (sint new_capacity)) False (free_index_bitmap p),
                         storage := vec_resize (nat (sint new_capacity)) 0 (storage p) \<rparr>,
                      new_capacity)))"

definition resize :: "pma \<Rightarrow> error + pma" where
  "resize p =
     (case resize_fields p of
        Inl e \<Rightarrow> Inl e
      | Inr (p', new_capacity) \<Rightarrow> naive_rebalance p' 0 new_capacity)"

subsection \<open>The rebalancer\<close>

text \<open>
  What the upward walk of \<open>rebalance\<close> ends in: the call \<open>resize()\<close>, or the call
  \<open>naive_rebalance(window, length)\<close>.
\<close>

datatype action = Resize | Redistribute u32 u32

text \<open>The loop \<open>for (int height = 1; height < _implicit_tree_height; ++height)\<close>.\<close>

function walk :: "pma \<Rightarrow> u32 \<Rightarrow> u32 \<Rightarrow> int \<Rightarrow> error + action" where
  "walk p window len height =
     (if height < implicit_tree_height p then
        (case window_capacity p height of
           Inl e \<Rightarrow> Inl e
         | Inr cap \<Rightarrow>
             (case window_size p window len of
                Inl e \<Rightarrow> Inl e
              | Inr sz \<Rightarrow>
                  if cap = 0 then Inl DivByZero
                  else if dbl_less (dbl_of_u32 (sz div cap)) (upper_density_threshold p height)
                    then Inr (Redistribute window len)
                  else if window = 0 \<and> window + len = capacity p - 1 then Inr Resize
                  else if window = 0 then walk p window (len + cap) (height + 1)
                  else if window + len = capacity p - 1
                    then walk p (window - cap) len (height + 1)
                  else walk p (window - cap div 2) (len + cap div 2) (height + 1)))
      else Inr (Redistribute window len))"
  by pat_completeness auto
termination
  by (relation "measure (\<lambda>(p, window, len, height). nat (implicit_tree_height p - height))")
    auto

declare walk.simps [simp del]

definition rebalance :: "pma \<Rightarrow> u32 \<Rightarrow> error + pma" where
  "rebalance p segment =
     (case number_of_segments p of
        Inl e \<Rightarrow> Inl e
      | Inr n \<Rightarrow>
          if n = 0 then Inl DivByZero
          else
            (case walk p (if segment mod n = 0 then segment else segment - segment_size p)
                    (segment_size p * 2) 1 of
               Inl e \<Rightarrow> Inl e
             | Inr Resize \<Rightarrow> resize p
             | Inr (Redistribute window len) \<Rightarrow> naive_rebalance p window len))"

subsection \<open>Insertion\<close>

definition insert_pma :: "pma \<Rightarrow> int \<Rightarrow> error + pma" where
  "insert_pma p x =
     (case segment_to_insert p x of Inl e \<Rightarrow> Inl e | Inr segment \<Rightarrow>
      case position_to_insert p segment x of Inl e \<Rightarrow> Inl e | Inr pos \<Rightarrow>
      case index_is_free p pos of Inl e \<Rightarrow> Inl e | Inr f \<Rightarrow>
        if f then
          (case storage_set p (unat pos) x of Inl e \<Rightarrow> Inl e | Inr p1 \<Rightarrow>
           case bit_flip p1 (unat pos) of Inl e \<Rightarrow> Inl e | Inr p2 \<Rightarrow>
           Inr (p2\<lparr>size_pma := size_pma p2 + 1\<rparr>))
        else
          (case window_size p segment (segment_size p) of Inl e \<Rightarrow> Inl e | Inr sz \<Rightarrow>
           if segment_size p = 0 then Inl DivByZero
           else if dbl_le (upper_density_threshold p 0) (dbl_of_u32 (sz div segment_size p))
             then rebalance p segment
           else Inr p))"

subsection \<open>Clearing a window\<close>





section \<open>The properties under study\<close>

text \<open>
  The representation the class relies on: the two vectors have the same length, which
  fits an \<open>int\<close>, and a segment is not empty and not longer than the array.
\<close>

definition well_formed :: "pma \<Rightarrow> bool" where
  "well_formed p \<longleftrightarrow>
     length (free_index_bitmap p) = length (storage p) \<and>
     length (storage p) < 2 ^ 31 \<and>
     segment_size p \<noteq> 0 \<and>
     unat (segment_size p) \<le> length (storage p)"

text \<open>The keys of the occupied slots, in increasing index order.\<close>

definition live_keys :: "pma \<Rightarrow> int list" where
  "live_keys p = map snd (filter fst (zip (free_index_bitmap p) (storage p)))"

definition sorted_order :: "pma \<Rightarrow> bool" where
  "sorted_order p \<longleftrightarrow> sorted (live_keys p)"

text \<open>The number of indices below \<open>capacity()\<close> at which \<open>index_is_free\<close> is false.\<close>

definition occupied_count :: "pma \<Rightarrow> nat" where
  "occupied_count p =
     length (filter (\<lambda>i. index_is_free p (of_nat i) = Inr False) [0 ..< unat (capacity p)])"

definition count_agreement :: "pma \<Rightarrow> bool" where
  "count_agreement p \<longleftrightarrow> unat (size_pma p) = occupied_count p"



text \<open>
  The precondition of the window scanner: \<open>start\<close> is aligned to \<open>len\<close>, and \<open>len\<close> is a
  power-of-two multiple of the segment size that does not exceed the capacity.
\<close>

definition window_ok :: "pma \<Rightarrow> u32 \<Rightarrow> u32 \<Rightarrow> bool" where
  "window_ok p start len \<longleftrightarrow>
     len \<noteq> 0 \<and> start mod len = 0 \<and>
     (\<exists>h \<in> set [0 ..< 32]. unat len = unat (segment_size p) * 2 ^ h) \<and>
     len \<le> capacity p"

text \<open>
  What the specification asks of \<open>position_to_insert(s, x)\<close>: the smallest index of the
  segment starting at \<open>s\<close> that holds a live key greater than \<open>x\<close>, or one past the
  largest occupied index of the segment if there is none (\<open>None\<close> for a segment without
  keys, of which the specification says nothing).
\<close>

definition position_spec :: "pma \<Rightarrow> nat \<Rightarrow> int \<Rightarrow> nat option" where
  "position_spec p s x =
     (let occupied = filter (\<lambda>i. free_index_bitmap p ! i) [s ..< s + unat (segment_size p)]
      in case filter (\<lambda>i. x < storage p ! i) occupied of
           i # _ \<Rightarrow> Some i
         | [] \<Rightarrow> if occupied = [] then None else Some (Suc (last occupied)))"

subsection \<open>Some states of capacity 4\<close>

text \<open>All four have tree height 2 and segment size 2, as after construction.\<close>

definition one_key :: pma where
  "one_key = \<lparr> implicit_tree_height = 2, segment_size = 2, size_pma = 1,
                free_index_bitmap = [True, False, False, False],
                storage = [5, 0, 0, 0] \<rparr>"

definition last_key :: pma where
  "last_key = \<lparr> implicit_tree_height = 2, segment_size = 2, size_pma = 1,
                 free_index_bitmap = [False, False, False, True],
                 storage = [0, 0, 0, 5] \<rparr>"

definition tail_keys :: pma where
  "tail_keys = \<lparr> implicit_tree_height = 2, segment_size = 2, size_pma = 2,
                  free_index_bitmap = [False, False, True, True],
                  storage = [0, 0, 3, 5] \<rparr>"

definition full_pma :: pma where
  "full_pma = \<lparr> implicit_tree_height = 2, segment_size = 2, size_pma = 4,
                 free_index_bitmap = [True, True, True, True],
                 storage = [1, 2, 3, 4] \<rparr>"



section \<open>Construction\<close>

lemma floor_log2_4: "floor_log2 4 = 2"
  by (simp add: floor_log2.simps)

lemma replicate_4: "replicate 4 x = [x, x, x, x]"
  by (simp add: numeral_eq_Suc)

lemma pma_new_eq:
  "pma_new = \<lparr> implicit_tree_height = 2, segment_size = 2, size_pma = 0,
               free_index_bitmap = [False, False, False, False],
               storage = [0, 0, 0, 0] \<rparr>"
  by (simp add: pma_new_def INITIAL_CAPACITY_def floor_log2_4 vec_resize_def replicate_4)

text \<open>
  C10.  A default-constructed \<open>pma\<close> has capacity 4, size 0, segment size 2 and tree
  height 2, and every index below 4 is free.
\<close>

theorem default_constructed_pma:
  "capacity pma_new = 4 \<and> size_pma pma_new = 0 \<and> segment_size pma_new = 2 \<and>
   tree_height pma_new = 2 \<and> (\<forall>i. i < 4 \<longrightarrow> index_is_free pma_new i = Inr True)"
proof -
  have "index_is_free pma_new i = Inr True" if "i < 4" for i :: u32
  proof -
    from that have "unat i < 4"
      by (simp add: word_less_nat_alt)
    then have "unat i = 0 \<or> unat i = 1 \<or> unat i = 2 \<or> unat i = 3"
      by arith
    then show ?thesis
      by (auto simp: index_is_free_def bit_at_def pma_new_eq)
  qed
  then show ?thesis
    by (simp add: pma_new_eq capacity_def tree_height_def)
qed

theorem default_constructed_pma_witness:
  "(3 :: u32) < 4 \<and> index_is_free pma_new 3 = Inr True \<and> capacity pma_new = 4"
  using default_constructed_pma by simp

section \<open>Calls that cannot return\<close>

text \<open>
  With \<open>window = 0\<close> the second loop of \<open>naive_rebalance\<close> has a condition that is always
  true, so it can only end in an access out of range.  Hence \<open>naive_rebalance(0, n)\<close>
  never returns, nor does \<open>resize\<close>, which ends in such a call, nor \<open>rebalance(0)\<close>,
  whose walk keeps \<open>window\<close> at 0.
\<close>

lemma spread_zero: "spread p 0 gap i nxt \<noteq> Inr q"
proof (induction p "0 :: u32" gap i nxt arbitrary: q rule: spread.induct)
  case (1 p gap i nxt)
  show ?case
    using 1 by (subst spread.simps) (auto split: sum.splits)
qed

lemma naive_rebalance_zero: "naive_rebalance p 0 len \<noteq> Inr q"
  by (auto simp: naive_rebalance_def spread_zero split: sum.splits)

lemma resize_never: "resize p \<noteq> Inr q"
  by (simp add: resize_def naive_rebalance_zero split: sum.splits prod.splits)

lemma walk_zero:
  "walk p 0 len h = Inr a \<Longrightarrow> a = Resize \<or> (\<exists>l. a = Redistribute 0 l)"
proof (induction p "0 :: u32" len h rule: walk.induct)
  case (1 p len h)
  show ?case
  proof (cases "h < implicit_tree_height p")
    case False
    with "1.prems" show ?thesis
      by (subst (asm) walk.simps) auto
  next
    case True
    with "1.prems" obtain cap sz where cap: "window_capacity p h = Inr cap"
      and sz: "window_size p 0 len = Inr sz"
      by (subst (asm) walk.simps) (auto split: sum.splits)
    show ?thesis
    proof (cases "cap \<noteq> 0 \<and>
        \<not> dbl_less (dbl_of_u32 (sz div cap)) (upper_density_threshold p h) \<and>
        len \<noteq> capacity p - 1")
      case False
      with "1.prems" True cap sz show ?thesis
        by (subst (asm) walk.simps) (auto split: if_splits)
    next
      case go: True
      with "1.prems" True cap sz have "walk p 0 (len + cap) (h + 1) = Inr a"
        by (subst (asm) walk.simps) simp
      with "1.hyps"(1) [OF True cap sz] go show ?thesis
        by simp
    qed
  qed
qed

lemma rebalance_zero: "rebalance p 0 \<noteq> Inr q"
  by (auto simp: rebalance_def resize_never naive_rebalance_zero
      split: sum.splits action.splits dest!: walk_zero)

section \<open>What the locator returns\<close>

text \<open>
  In a well-formed array only the first round of the outer loop of \<open>segment_to_insert\<close>
  runs the inner loop, which scans from slot 0 to the first occupied slot: the result is
  0 if that key equals \<open>x\<close> and \<open>0 - _segment_size\<close> if it is greater.  For the latter
  \<open>position_to_insert\<close> returns 0 and \<open>window_size\<close> counts nothing.
\<close>

lemma index_is_free_Inr:
  "index_is_free p i = Inr f \<longleftrightarrow>
     unat i < length (free_index_bitmap p) \<and> f = (\<not> free_index_bitmap p ! unat i)"
  by (auto simp: index_is_free_def bit_at_def)

lemma storage_at_Inr:
  "storage_at p n = Inr k \<longleftrightarrow> n < length (storage p) \<and> k = storage p ! n"
  by (auto simp: storage_at_def)

lemma unat_incr_small:
  "unat i < n \<Longrightarrow> n < 2 ^ 31 \<Longrightarrow> unat (i + 1) = Suc (unat i)" for i :: u32
  using unat_add_lem [of i 1] by simp

lemma seg_scan_Some:
  assumes "seg_scan fuel p x seg i = Inr (Some v)"
    and "length (free_index_bitmap p) < 2 ^ 31"
  shows "\<exists>j. unat i \<le> j \<and> j < length (free_index_bitmap p) \<and> j < length (storage p) \<and>
            (\<forall>k. unat i \<le> k \<and> k < j \<longrightarrow> \<not> free_index_bitmap p ! k) \<and>
            free_index_bitmap p ! j \<and>
            ((x = storage p ! j \<and> v = seg) \<or>
             (x < storage p ! j \<and> v = seg - segment_size p))"
  using assms
proof (induction fuel p x seg i rule: seg_scan.induct)
  case (1 fuel p x seg i)
  from "1.prems"(1) have seg: "seg < segment_size p" and fuel: "fuel \<noteq> 0"
    by (subst (asm) seg_scan.simps, simp split: if_splits)+
  from "1.prems"(1) seg fuel obtain f where f: "index_is_free p i = Inr f"
    by (subst (asm) seg_scan.simps) (simp split: sum.splits)
  then have i: "unat i < length (free_index_bitmap p)"
    and fv: "f = (\<not> free_index_bitmap p ! unat i)"
    by (simp_all add: index_is_free_Inr)
  show ?case
  proof (cases f)
    case True
    with "1.prems"(1) seg fuel f
    have "seg_scan (fuel - 1) p x seg (i + 1) = Inr (Some v)"
      by (subst (asm) seg_scan.simps) simp
    from "1.IH" [OF seg fuel f True this "1.prems"(2)]
    obtain j where j: "unat (i + 1) \<le> j" "j < length (free_index_bitmap p)"
      "j < length (storage p)"
      "\<forall>k. unat (i + 1) \<le> k \<and> k < j \<longrightarrow> \<not> free_index_bitmap p ! k"
      "free_index_bitmap p ! j"
      "(x = storage p ! j \<and> v = seg) \<or> (x < storage p ! j \<and> v = seg - segment_size p)"
      by blast
    have suc: "unat (i + 1) = Suc (unat i)"
      using i "1.prems"(2) by (rule unat_incr_small)
    have "\<not> free_index_bitmap p ! k" if "unat i \<le> k \<and> k < j" for k
    proof (cases "k = unat i")
      case True
      with fv \<open>f\<close> show ?thesis by simp
    next
      case False
      with that suc j(4) show ?thesis by simp
    qed
    with j suc show ?thesis
      by (intro exI [of _ j]) simp
  next
    case False
    with "1.prems"(1) seg fuel f obtain k where k: "storage_at p (unat i) = Inr k"
      by (subst (asm) seg_scan.simps) (simp split: sum.splits)
    with "1.prems"(1) seg fuel f False
    have "(x = k \<and> v = seg) \<or> (x < k \<and> v = seg - segment_size p)"
      by (subst (asm) seg_scan.simps) (auto split: if_splits)
    with k i fv False show ?thesis
      by (intro exI [of _ "unat i"]) (auto simp: storage_at_Inr)
  qed
qed

lemma unat_add_small:
  "unat a < n \<Longrightarrow> unat b \<le> n \<Longrightarrow> n < 2 ^ 31 \<Longrightarrow> unat (a + b) = unat a + unat b"
  for a b :: u32
  using unat_add_lem [of a b] by simp

lemma unat_capacity: "length (storage p) < 2 ^ 31 \<Longrightarrow> unat (capacity p) = length (storage p)"
  by (simp add: capacity_def unat_of_nat)

lemma seg_loop_beyond:
  assumes "well_formed p" and "segment_size p \<le> seg"
  shows "seg_loop fuel p x seg \<noteq> Inr v"
  using assms
proof (induction fuel p x seg rule: seg_loop.induct)
  case (1 fuel p x seg)
  show ?case
  proof (cases "seg < capacity p \<and> fuel \<noteq> 0")
    case False
    then show ?thesis
      by (subst seg_loop.simps) auto
  next
    case True
    from "1.prems"(2) have "\<not> seg < segment_size p"
      by (simp add: not_less)
    then have scan: "seg_scan U32_RANGE p x seg seg = Inr None"
      by (subst seg_scan.simps) simp
    from "1.prems"(1) have wf: "length (storage p) < 2 ^ 31"
      "unat (segment_size p) \<le> length (storage p)"
      by (simp_all add: well_formed_def)
    from True wf have "unat seg < length (storage p)"
      by (simp add: word_less_nat_alt unat_capacity)
    with wf have "unat (seg + segment_size p) = unat seg + unat (segment_size p)"
      by (intro unat_add_small)
    then have "segment_size p \<le> seg + segment_size p"
      by (simp add: word_le_nat_alt)
    with "1.IH" [OF _ _ scan refl "1.prems"(1)] True have "seg_loop (fuel - 1) p x (seg + segment_size p) \<noteq> Inr v"
      by simp
    with True scan show ?thesis
      by (subst seg_loop.simps) simp
  qed
qed

lemma segment_to_insert_Some:
  assumes "well_formed p" and "segment_to_insert p x = Inr v"
  shows "seg_scan U32_RANGE p x 0 0 = Inr (Some v)"
proof -
  have "seg_loop fuel p x (0 + segment_size p) \<noteq> Inr v" for fuel
    using assms(1) by (intro seg_loop_beyond) simp_all
  with assms(2) show ?thesis
    by (subst (asm) segment_to_insert_def, subst (asm) seg_loop.simps)
      (auto split: if_splits sum.splits option.splits)
qed

lemma pos_loop_lower:
  assumes "pos_loop p x i pos = Inr r"
    and "length (free_index_bitmap p) < 2 ^ 31"
    and "\<forall>k < unat i. free_index_bitmap p ! k \<longrightarrow> storage p ! k \<le> x \<and> k < unat pos"
    and "unat pos \<le> unat i"
  shows "\<forall>k < unat r. free_index_bitmap p ! k \<longrightarrow> storage p ! k \<le> x"
  using assms
proof (induction p x i pos rule: pos_loop.induct)
  case (1 p x i pos)
  note inv = "1.prems"(3) and le = "1.prems"(4) and small = "1.prems"(2)
  show ?case
  proof (cases "i < segment_size p - 1")
    case False
    with "1.prems"(1) have "r = pos"
      by (subst (asm) pos_loop.simps) simp
    with inv le show ?thesis by auto
  next
    case True
    with "1.prems"(1) obtain f where f: "index_is_free p i = Inr f"
      by (subst (asm) pos_loop.simps) (simp split: sum.splits)
    then have i: "unat i < length (free_index_bitmap p)"
      and fv: "f = (\<not> free_index_bitmap p ! unat i)"
      by (simp_all add: index_is_free_Inr)
    have suc: "unat (i + 1) = Suc (unat i)"
      using i small by (rule unat_incr_small)
    show ?thesis
    proof (cases f)
      case True
      with "1.prems"(1) \<open>i < segment_size p - 1\<close> f
      have run: "pos_loop p x (i + 1) pos = Inr r"
        by (subst (asm) pos_loop.simps) simp
      have "\<forall>k < unat (i + 1). free_index_bitmap p ! k \<longrightarrow> storage p ! k \<le> x \<and> k < unat pos"
        using inv fv True by (auto simp: suc less_Suc_eq)
      moreover have "unat pos \<le> unat (i + 1)"
        using le suc by simp
      ultimately show ?thesis
        using "1.IH"(1) [OF \<open>i < segment_size p - 1\<close> f True run small] by blast
    next
      case False
      with "1.prems"(1) \<open>i < segment_size p - 1\<close> f
      obtain k where k: "storage_at p (unat i) = Inr k"
        by (subst (asm) pos_loop.simps) (simp split: sum.splits)
      then have kv: "k = storage p ! unat i"
        by (simp add: storage_at_Inr)
      show ?thesis
      proof (cases "x = k")
        case True
        with "1.prems"(1) \<open>i < segment_size p - 1\<close> f \<open>\<not> f\<close> k
        have run: "pos_loop p x (i + 1) (i + 1) = Inr r"
          by (subst (asm) pos_loop.simps) simp
        have "\<forall>j < unat (i + 1). free_index_bitmap p ! j \<longrightarrow>
            storage p ! j \<le> x \<and> j < unat (i + 1)"
          using inv kv True by (auto simp: suc less_Suc_eq)
        then show ?thesis
          using "1.IH"(2) [OF \<open>i < segment_size p - 1\<close> f \<open>\<not> f\<close> k True run small] by blast
      next
        case False
        with "1.prems"(1) \<open>i < segment_size p - 1\<close> f \<open>\<not> f\<close> k
        have r: "r = (if x > k then i + 1 else pos)"
          by (subst (asm) pos_loop.simps) simp
        show ?thesis
        proof (cases "x > k")
          case True
          with r have "unat r = Suc (unat i)" by (simp add: suc)
          with inv kv True show ?thesis by (auto simp: less_Suc_eq)
        next
          case False
          with r have "r = pos" by simp
          with inv le show ?thesis by auto
        qed
      qed
    qed
  qed
qed

lemma position_to_insert_zero:
  assumes "position_to_insert p 0 x = Inr r" and "length (free_index_bitmap p) < 2 ^ 31"
  shows "\<forall>k < unat r. free_index_bitmap p ! k \<longrightarrow> storage p ! k \<le> x"
  using assms unfolding position_to_insert_def
  by (rule pos_loop_lower) simp_all

lemma wrapped_segment_not_less:
  fixes s :: u32
  assumes "s \<noteq> 0" and "unat s < 2 ^ 31"
  shows "\<not> (0 - s < s - 1)"
proof -
  from assms(1) have "unat s \<noteq> 0"
    by (simp add: unat_0_iff)
  with unat_sub_if_size [of 0 s] have "unat (0 - s) = 2 ^ 32 - unat s"
    by (simp add: word_size)
  moreover from assms(1) have "unat (s - 1) = unat s - 1"
    by (rule unat_minus_one)
  ultimately show ?thesis
    using assms(2) by (simp add: word_less_nat_alt)
qed

lemma position_to_insert_wrapped:
  assumes "well_formed p"
  shows "position_to_insert p (- segment_size p) x = Inr 0"
proof -
  from assms have "segment_size p \<noteq> 0" "unat (segment_size p) < 2 ^ 31"
    by (simp_all add: well_formed_def)
  then have "\<not> (0 - segment_size p < segment_size p - 1)"
    by (rule wrapped_segment_not_less)
  then have "\<not> (- segment_size p < segment_size p - 1)"
    by simp
  then show ?thesis
    unfolding position_to_insert_def by (subst pos_loop.simps) simp
qed

lemma window_size_wrapped: "window_size p (- s) s = Inr 0"
  unfolding window_size_def by (subst ws_loop.simps) simp

lemma threshold_leaf_not_le_zero:
  "\<not> dbl_le (upper_density_threshold p 0) (dbl_of_u32 0)"
  by (simp add: upper_density_threshold_def dbl_of_u32_def LEAF_UPPER_DENSITY_def
      ROOT_UPPER_DENSITY_def Let_def)

section \<open>Sortedness by index\<close>

lemma set_live:
  "length bs = length xs \<Longrightarrow>
   set (map snd (filter fst (zip bs xs))) = {xs ! k | k. k < length xs \<and> bs ! k}"
proof (induction bs xs rule: list_induct2)
  case Nil
  then show ?case by simp
next
  case (Cons b bs x xs)
  have "{(x # xs) ! k | k. k < length (x # xs) \<and> (b # bs) ! k} =
        (if b then {x} else {}) \<union> {xs ! k | k. k < length xs \<and> bs ! k}"
    (is "?L = ?R")
  proof (rule set_eqI)
    fix y
    show "y \<in> ?L \<longleftrightarrow> y \<in> ?R"
    proof
      assume "y \<in> ?L"
      then obtain k where k: "y = (x # xs) ! k" "k < length (x # xs)" "(b # bs) ! k"
        by blast
      show "y \<in> ?R"
      proof (cases k)
        case 0
        with k show ?thesis by simp
      next
        case (Suc k')
        with k have "y = xs ! k' \<and> k' < length xs \<and> bs ! k'" by simp
        then show ?thesis by blast
      qed
    next
      assume "y \<in> ?R"
      then consider "b" "y = x" | k where "y = xs ! k" "k < length xs" "bs ! k"
        by (auto split: if_splits)
      then show "y \<in> ?L"
      proof cases
        case 1
        then have "y = (x # xs) ! 0 \<and> 0 < length (x # xs) \<and> (b # bs) ! 0" by simp
        then show ?thesis by blast
      next
        case 2
        then have "y = (x # xs) ! Suc k \<and> Suc k < length (x # xs) \<and> (b # bs) ! Suc k"
          by simp
        then show ?thesis by blast
      qed
    qed
  qed
  with Cons show ?case by auto
qed

lemma sorted_live_iff:
  "length bs = length xs \<Longrightarrow>
   sorted (map snd (filter fst (zip bs xs))) \<longleftrightarrow>
     (\<forall>i j. i < j \<and> j < length xs \<and> bs ! i \<and> bs ! j \<longrightarrow> xs ! i \<le> xs ! j)"
  for xs :: "int list"
proof (induction bs xs rule: list_induct2)
  case Nil
  then show ?case by simp
next
  case (Cons b bs x xs)
  let ?R = "\<lambda>bs xs. \<forall>i j. i < j \<and> j < length xs \<and> bs ! i \<and> bs ! j \<longrightarrow> xs ! i \<le> (xs ! j :: int)"
  have step: "?R (b # bs) (x # xs) \<longleftrightarrow>
      (b \<longrightarrow> (\<forall>j. j < length xs \<and> bs ! j \<longrightarrow> x \<le> xs ! j)) \<and> ?R bs xs"
    (is "?L \<longleftrightarrow> ?A \<and> ?B")
  proof
    assume L: ?L
    have ?A
    proof (intro impI allI)
      fix j assume "b" "j < length xs \<and> bs ! j"
      with L [rule_format, of 0 "Suc j"] show "x \<le> xs ! j" by simp
    qed
    moreover have ?B
    proof (intro impI allI)
      fix i j assume "i < j \<and> j < length xs \<and> bs ! i \<and> bs ! j"
      with L [rule_format, of "Suc i" "Suc j"] show "xs ! i \<le> xs ! j" by simp
    qed
    ultimately show "?A \<and> ?B" ..
  next
    assume AB: "?A \<and> ?B"
    show ?L
    proof (intro impI allI)
      fix i j assume h: "i < j \<and> j < length (x # xs) \<and> (b # bs) ! i \<and> (b # bs) ! j"
      then obtain j' where j: "j = Suc j'" by (cases j) auto
      show "(x # xs) ! i \<le> (x # xs) ! j"
      proof (cases i)
        case 0
        with h j AB show ?thesis by simp
      next
        case (Suc i')
        with h j AB show ?thesis by simp
      qed
    qed
  qed
  have live: "set (map snd (filter fst (zip bs xs))) = {xs ! k | k. k < length xs \<and> bs ! k}"
    using Cons.hyps by (rule set_live)
  have "sorted (map snd (filter fst (zip (b # bs) (x # xs)))) \<longleftrightarrow>
      (b \<longrightarrow> (\<forall>y \<in> set (map snd (filter fst (zip bs xs))). x \<le> y)) \<and>
      sorted (map snd (filter fst (zip bs xs)))"
    by simp
  also have "(\<forall>y \<in> set (map snd (filter fst (zip bs xs))). x \<le> y) \<longleftrightarrow>
      (\<forall>j. j < length xs \<and> bs ! j \<longrightarrow> x \<le> xs ! j)"
    unfolding live by blast
  finally show ?case
    unfolding step Cons.IH .
qed

lemma sorted_order_iff:
  assumes "length (free_index_bitmap p) = length (storage p)"
  shows "sorted_order p \<longleftrightarrow>
    (\<forall>i j. i < j \<and> j < length (storage p) \<and> free_index_bitmap p ! i \<and> free_index_bitmap p ! j
       \<longrightarrow> storage p ! i \<le> storage p ! j)"
  unfolding sorted_order_def live_keys_def by (rule sorted_live_iff [OF assms])

section \<open>The effect of a completed insertion\<close>

text \<open>
  A call of \<open>insert\<close> on a well-formed array that returns has either changed nothing, or
  has written \<open>x\<close> into a free slot \<open>r\<close> with no greater key before it, \<open>x\<close> being at most
  the first key of the array.
\<close>

lemma insert_pma_cases:
  assumes wf: "well_formed p" and ins: "insert_pma p x = Inr p'"
  obtains (unchanged) "p' = p"
  | (stored) r j where
      "r < length (storage p)" "\<not> free_index_bitmap p ! r"
      "p' = p\<lparr> storage := (storage p)[r := x],
               free_index_bitmap := (free_index_bitmap p)[r := True],
               size_pma := size_pma p + 1 \<rparr>"
      "\<forall>k < r. free_index_bitmap p ! k \<longrightarrow> storage p ! k \<le> x"
      "j < length (storage p)" "free_index_bitmap p ! j"
      "\<forall>k < j. \<not> free_index_bitmap p ! k" "x \<le> storage p ! j"
proof -
  from wf have len: "length (free_index_bitmap p) = length (storage p)"
    and small: "length (free_index_bitmap p) < 2 ^ 31"
    and s0: "segment_size p \<noteq> 0"
    by (simp_all add: well_formed_def)
  from ins obtain v pos f where v: "segment_to_insert p x = Inr v"
    and pos: "position_to_insert p v x = Inr pos"
    and f: "index_is_free p pos = Inr f"
    by (auto simp: insert_pma_def split: sum.splits)
  from wf v have "seg_scan U32_RANGE p x 0 0 = Inr (Some v)"
    by (rule segment_to_insert_Some)
  from seg_scan_Some [OF this small] obtain j where
    j: "j < length (storage p)" "free_index_bitmap p ! j"
      "\<forall>k < j. \<not> free_index_bitmap p ! k"
    and jv: "(x = storage p ! j \<and> v = 0) \<or> (x < storage p ! j \<and> v = - segment_size p)"
    by auto
  from jv have xj: "x \<le> storage p ! j" by auto
  have lower: "\<forall>k < unat pos. free_index_bitmap p ! k \<longrightarrow> storage p ! k \<le> x"
  proof (cases "v = 0")
    case True
    with pos small show ?thesis
      by (auto dest: position_to_insert_zero)
  next
    case False
    with jv have "v = - segment_size p" by simp
    with pos position_to_insert_wrapped [OF wf, of x] have "pos = 0" by simp
    then show ?thesis by simp
  qed
  from f have r: "unat pos < length (free_index_bitmap p)"
    and fv: "f = (\<not> free_index_bitmap p ! unat pos)"
    by (simp_all add: index_is_free_Inr)
  show thesis
  proof (cases f)
    case True
    with ins v pos f r len
    have "p' = p\<lparr> storage := (storage p)[unat pos := x],
               free_index_bitmap := (free_index_bitmap p)[unat pos := True],
               size_pma := size_pma p + 1 \<rparr>"
      by (simp add: insert_pma_def storage_set_def bit_flip_def fv)
    with r len fv True lower j xj show thesis
      by (intro stored [of "unat pos" j]) simp_all
  next
    case False
    show thesis
    proof (cases "v = 0")
      case True
      with ins v pos f False have "p' = p"
        by (auto simp: insert_pma_def rebalance_zero split: sum.splits if_splits)
      then show thesis by (rule unchanged)
    next
      case nz: False
      with jv have "v = - segment_size p" by simp
      with ins v pos f False s0 have "p' = p"
        by (simp add: insert_pma_def window_size_wrapped threshold_leaf_not_le_zero)
      then show thesis by (rule unchanged)
    qed
  qed
qed

lemma well_formed_stored:
  assumes "well_formed p"
  shows "well_formed (p\<lparr> storage := (storage p)[r := x],
               free_index_bitmap := (free_index_bitmap p)[r := True],
               size_pma := size_pma p + 1 \<rparr>)"
  using assms by (simp add: well_formed_def)

lemma insert_pma_well_formed:
  assumes "well_formed p" and "insert_pma p x = Inr p'"
  shows "well_formed p'"
  using assms
proof (cases rule: insert_pma_cases)
  case unchanged
  with assms(1) show ?thesis by simp
next
  case (stored r j)
  from assms(1) show ?thesis
    unfolding stored(3) by (rule well_formed_stored)
qed

lemma count_set_bit:
  assumes "r < length bs" and "\<not> bs ! r"
  shows "length (filter (\<lambda>b. b) (bs[r := True])) = Suc (length (filter (\<lambda>b. b) bs))"
proof -
  from assms(1) have "bs = take r bs @ bs ! r # drop (Suc r) bs"
    by (rule id_take_nth_drop)
  then have "length (filter (\<lambda>b. b) bs) =
      length (filter (\<lambda>b. b) (take r bs)) + length (filter (\<lambda>b. b) (drop (Suc r) bs))"
    using assms(2) by (metis filter.simps(2) filter_append length_append)
  moreover from assms(1) have "bs[r := True] = take r bs @ True # drop (Suc r) bs"
    by (rule upd_conv_take_nth_drop)
  ultimately show ?thesis by simp
qed

lemma count_below_length:
  assumes "r < length bs" and "\<not> bs ! r"
  shows "length (filter (\<lambda>b. b) bs) < length bs"
proof -
  from assms(1) have "bs ! r \<in> set bs" by (rule nth_mem)
  then show ?thesis using assms(2) by (rule length_filter_less)
qed

lemma length_filter_nth:
  "length (filter (\<lambda>i. bs ! i) [0 ..< length bs]) = length (filter (\<lambda>b. b) bs)"
proof -
  have "length (filter (\<lambda>i. bs ! i) [0 ..< length bs]) =
      length (map (\<lambda>i. bs ! i) (filter ((\<lambda>b. b) \<circ> (\<lambda>i. bs ! i)) [0 ..< length bs]))"
    by (simp add: comp_def)
  also have "\<dots> = length (filter (\<lambda>b. b) (map (\<lambda>i. bs ! i) [0 ..< length bs]))"
    by (simp only: filter_map)
  also have "map (\<lambda>i. bs ! i) [0 ..< length bs] = bs"
    by (rule map_nth)
  finally show ?thesis .
qed

lemma occupied_count_bitmap:
  assumes "well_formed p"
  shows "occupied_count p = length (filter (\<lambda>b. b) (free_index_bitmap p))"
proof -
  let ?bm = "free_index_bitmap p"
  from assms have len: "length ?bm = length (storage p)"
    and small: "length (storage p) < 2 ^ 31"
    by (simp_all add: well_formed_def)
  have "index_is_free p (of_nat i) = Inr False \<longleftrightarrow> ?bm ! i" if "i < length ?bm" for i
  proof -
    from that len small have "unat (of_nat i :: u32) = i"
      by (simp add: unat_of_nat)
    with that show ?thesis
      by (simp add: index_is_free_def bit_at_def)
  qed
  then have "filter (\<lambda>i. index_is_free p (of_nat i) = Inr False) [0 ..< length ?bm] =
      filter (\<lambda>i. ?bm ! i) [0 ..< length ?bm]"
    by (intro filter_cong) simp_all
  moreover have "length (filter (\<lambda>i. ?bm ! i) [0 ..< length ?bm]) =
      length (filter (\<lambda>b. b) ?bm)"
    by (rule length_filter_nth)
  ultimately show ?thesis
    using len small by (simp add: occupied_count_def unat_capacity)
qed

lemma insert_pma_count:
  assumes wf: "well_formed p" and ca: "count_agreement p" and ins: "insert_pma p x = Inr p'"
  shows "count_agreement p'"
proof -
  from wf ins have wf': "well_formed p'"
    by (rule insert_pma_well_formed)
  from ca wf have ca': "unat (size_pma p) = length (filter (\<lambda>b. b) (free_index_bitmap p))"
    by (simp add: count_agreement_def occupied_count_bitmap)
  from wf ins have "unat (size_pma p') = length (filter (\<lambda>b. b) (free_index_bitmap p'))"
  proof (cases rule: insert_pma_cases)
    case unchanged
    with ca' show ?thesis by simp
  next
    case (stored r j)
    from wf have len: "length (free_index_bitmap p) = length (storage p)"
      and small: "length (storage p) < 2 ^ 31"
      by (simp_all add: well_formed_def)
    from stored(1,2) len
    have "length (filter (\<lambda>b. b) (free_index_bitmap p)) < length (free_index_bitmap p)"
      by (intro count_below_length [of r]) simp_all
    with ca' len small have "unat (size_pma p) < 2 ^ 31"
      by simp
    then have "unat (size_pma p + 1) = Suc (unat (size_pma p))"
      using unat_add_lem [of "size_pma p" 1] by simp
    moreover from stored(1,2) len
    have "length (filter (\<lambda>b. b) ((free_index_bitmap p)[r := True])) =
        Suc (length (filter (\<lambda>b. b) (free_index_bitmap p)))"
      by (intro count_set_bit) simp_all
    ultimately show ?thesis
      using ca' stored(3) by simp
  qed
  with wf' show ?thesis
    by (simp add: count_agreement_def occupied_count_bitmap)
qed

lemma insert_pma_sorted:
  assumes wf: "well_formed p" and so: "sorted_order p" and ins: "insert_pma p x = Inr p'"
  shows "sorted_order p'"
  using wf ins
proof (cases rule: insert_pma_cases)
  case unchanged
  with so show ?thesis by simp
next
  case (stored r j)
  let ?bm = "free_index_bitmap p" and ?st = "storage p"
  from wf have len: "length ?bm = length ?st"
    by (simp add: well_formed_def)
  from so len have old: "\<And>a b. a < b \<Longrightarrow> b < length ?st \<Longrightarrow> ?bm ! a \<Longrightarrow> ?bm ! b
      \<Longrightarrow> ?st ! a \<le> ?st ! b"
    by (simp add: sorted_order_iff)
  have upper: "x \<le> ?st ! b" if "b < length ?st" "?bm ! b" for b
  proof (cases "j = b")
    case True
    with stored(8) show ?thesis by simp
  next
    case False
    with stored(7) that have "j < b" by (meson linorder_neqE_nat)
    with old [of j b] that stored(6) have "?st ! j \<le> ?st ! b" by simp
    with stored(8) show ?thesis by simp
  qed
  have lower: "?st ! a \<le> x" if "a < r" "?bm ! a" for a
    using stored(4) that by simp
  have "?st[r := x] ! a \<le> ?st[r := x] ! b"
    if "a < b" "b < length ?st" "?bm[r := True] ! a" "?bm[r := True] ! b" for a b
  proof -
    from that len have a: "a < length ?bm" "a < length ?st" and b: "b < length ?bm"
      by simp_all
    consider "a = r" | "b = r" | "a \<noteq> r" "b \<noteq> r" by blast
    then show ?thesis
    proof cases
      case 1
      with that have "b \<noteq> r" "?bm ! b" by simp_all
      with upper [of b] that 1 stored(1) show ?thesis by simp
    next
      case 2
      with that have "a \<noteq> r" "a < r" "?bm ! a" by simp_all
      with lower [of a] 2 stored(1) show ?thesis by simp
    next
      case 3
      with that have "?bm ! a" "?bm ! b" by simp_all
      with old [of a b] that 3 show ?thesis by simp
    qed
  qed
  moreover have "length ((free_index_bitmap p)[r := True]) = length ((storage p)[r := x])"
    using len by simp
  ultimately show ?thesis
    unfolding stored(3) by (subst sorted_order_iff) simp_all
qed

lemma insert_pma_shape:
  assumes "well_formed p" and "insert_pma p x = Inr p'"
  shows "capacity p' = capacity p \<and> segment_size p' = segment_size p"
  using assms by (cases rule: insert_pma_cases) (simp_all add: capacity_def)

section \<open>Evaluating the operations\<close>

lemmas access_defs = index_is_free_def bit_at_def storage_at_def storage_set_def
  bit_flip_def int_index_def int_incr_def int_decr_def int_minus_def INT_MAX_def INT_MIN_def
  capacity_def word_le_nat_alt word_less_nat_alt

lemmas locator_defs = segment_to_insert_def seg_loop.simps seg_scan.simps U32_RANGE_def
  position_to_insert_def pos_loop.simps

lemmas density_defs = window_size_def ws_loop.simps upper_density_threshold_def dbl_of_u32_def
  LEAF_UPPER_DENSITY_def ROOT_UPPER_DENSITY_def window_capacity_def

lemmas rebalance_defs = rebalance_def number_of_segments_def walk.simps naive_rebalance_def
  compact.simps spread.simps move_key_def

section \<open>Where the code leaves the specification\<close>

text \<open>
  C1.  \<open>insert(x)\<close> is to store \<open>x\<close> and add one to \<open>size()\<close> in every reachable state,
  shifting keys when the chosen position is occupied.  On the constructed array
  \<open>insert(0)\<close>, the first call \<open>pma_test.cc\<close> makes, reads \<open>_free_index_bitmap[4]\<close> and
  does not return.  On the array that holds
  the key 5 in slot 0, \<open>insert(3)\<close> finds position 0 occupied and returns with the array
  as it was: the shift is a \<open>TODO\<close> comment.
\<close>

theorem insert_leaves_key_out:
  "insert_pma pma_new 0 = Inl OutOfBounds \<and> insert_pma one_key 3 = Inr one_key"
  by (simp add: insert_pma_def locator_defs density_defs access_defs pma_new_eq one_key_def)

text \<open>
  C4.  \<open>segment_to_insert(x)\<close> is to return the start of a segment, a multiple of the
  segment size below the capacity.  On the constructed array it runs off the bitmap; on
  the array that holds the key 5 in slot 0 it ends without \<open>return\<close> for \<open>x = 7\<close> and
  returns \<open>0 - 2\<close>, wrapped to 4294967294, for \<open>x = 3\<close>.
\<close>

theorem segment_to_insert_fails:
  "segment_to_insert pma_new 0 = Inl OutOfBounds \<and>
   segment_to_insert one_key 7 = Inl NoReturn \<and>
   segment_to_insert one_key 3 = Inr 4294967294 \<and> capacity one_key = 4"
  by (simp add: locator_defs access_defs pma_new_eq one_key_def)

text \<open>
  C5.  \<open>position_to_insert(s, x)\<close> is to return the smallest index of the segment at
  \<open>s\<close> that holds a live key greater than \<open>x\<close>.  With the keys 3 and 5 in slots 2 and 3,
  that index is 3 for \<open>s = 2\<close> and \<open>x = 4\<close>; the code returns 0, its loop being bounded
  by \<open>_segment_size - 1\<close> whatever \<open>s\<close> is.  It returns 0 for the segment at 2 of the
  constructed array as well.
\<close>

theorem position_to_insert_outside_segment:
  "position_to_insert tail_keys 2 4 = Inr 0 \<and> position_spec tail_keys 2 4 = Some 3 \<and>
   position_to_insert pma_new 2 4 = Inr 0"
  by (simp add: locator_defs access_defs position_spec_def tail_keys_def pma_new_eq upt_rec)

text \<open>
  C6.  When the upward walk is at the root window and that window is above its
  threshold, \<open>rebalance\<close> is to call \<open>resize\<close>, which doubles the capacity.  On the full
  array of capacity 4 the walk from segment 0 is at the root window \<open>(0, 4)\<close>, which
  holds 4 keys; the test \<open>window + length == capacity() - 1\<close> fails, the walk ends in
  \<open>naive_rebalance(0, 8)\<close>, and \<open>rebalance\<close> does not return.  Nor does \<open>resize\<close>
  called by itself.
\<close>

theorem root_overflow_skips_resize:
  "capacity full_pma = 4 \<and> window_size full_pma 0 4 = Inr 4 \<and>
   walk full_pma 0 (segment_size full_pma * 2) 1 = Inr (Redistribute 0 8) \<and>
   rebalance full_pma 0 = Inl OutOfBounds \<and> resize full_pma = Inl OutOfBounds"
  by (simp add: resize_def resize_fields_def rebalance_defs density_defs access_defs
      full_pma_def vec_resize_def floor_log2.simps replicate_4)

text \<open>
  C8.  Every window passed to \<open>window_size\<close> during insertion and rebalancing is to be
  aligned, a power-of-two multiple of the segment size, and within the capacity.  On
  the full array of capacity 4, \<open>insert(1)\<close> goes to \<open>rebalance(0)\<close>, whose walk hands the
  window \<open>(0, 8)\<close> to \<open>naive_rebalance\<close>, which scans it first: index 4 is read.  On the
  constructed array \<open>rebalance(2)\<close> scans the window \<open>(2, 4)\<close>.
\<close>

theorem scanner_precondition_broken:
  "segment_to_insert full_pma 1 = Inr 0 \<and>
   walk full_pma 0 (segment_size full_pma * 2) 1 = Inr (Redistribute 0 8) \<and>
   \<not> window_ok full_pma 0 8 \<and> window_size full_pma 0 8 = Inl OutOfBounds \<and>
   insert_pma full_pma 1 = Inl OutOfBounds \<and>
   \<not> window_ok pma_new 2 4 \<and> window_size pma_new 2 4 = Inl OutOfBounds \<and>
   rebalance pma_new 2 = Inl OutOfBounds"
  by (simp add: window_ok_def insert_pma_def locator_defs rebalance_defs density_defs
      access_defs full_pma_def pma_new_eq)

text \<open>
  C9.  \<open>naive_rebalance(w, L)\<close> is to leave every slot and bit outside \<open>[w, w + L)\<close> as it
  was.  On the full array with keys 1, 2, 3, 4, \<open>naive_rebalance(2, 2)\<close> compacts the
  window to slot 0 onwards, \<open>next_index\<close> starting at 0 instead of \<open>w\<close>, and returns
  with slots 0 and 1 holding 0 in place of the keys 1 and 2.
\<close>

theorem naive_rebalance_clobbers_outside:
  "storage full_pma = [1, 2, 3, 4] \<and>
   naive_rebalance full_pma 2 2 = Inr (full_pma\<lparr>storage := [0, 0, 3, 4]\<rparr>)"
  by (simp add: rebalance_defs density_defs access_defs full_pma_def)




end
